theory Spec2Isabelle
  imports Complex_Main "HOL-Library.Multiset" "HOL-Library.Sublist"
begin

section \<open>Result and progress model\<close>

text \<open>
  The shapes of \<^verbatim>\<open>IDataSource.ts\<close> and of the head of \<^verbatim>\<open>QueryOrchestrator.ts\<close>.
  A \<^verbatim>\<open>relevanceScore\<close> is a JavaScript number; the model takes the finite scores as reals
  (the difference of two finite doubles has the sign of their exact difference), so a
  \<^verbatim>\<open>NaN\<close> score is outside the model. The field \<^verbatim>\<open>source\<close> of \<^verbatim>\<open>SearchProgress\<close> is
  named \<open>progress_source\<close>, since \<open>source\<close> is the field of \<open>SearchResult\<close>.
\<close>

datatype error = Thrown string | TypeError

record SearchResult =
  source :: string
  title :: string
  content :: string
  url :: "string option"
  relevanceScore :: real
  metadata :: "(string \<times> string) list option"

datatype status = Searching | Completed | Error

record SearchProgress =
  progress_source :: string
  status :: status
  resultCount :: "nat option"

text \<open>
  A backend. \<^verbatim>\<open>isRelevantFor\<close> is synchronous and may throw; \<^verbatim>\<open>search\<close> returns a promise
  that is fulfilled with results (\<open>Inr\<close>) or rejected (\<open>Inl\<close>). A promise that never settles
  is outside the model. \<^verbatim>\<open>connect\<close> and \<^verbatim>\<open>disconnect\<close> are never called by the orchestrator.
\<close>

record IDataSource =
  name :: string
  isRelevantFor :: "string \<Rightarrow> error + bool"
  search :: "string \<Rightarrow> error + SearchResult list"

section \<open>The JavaScript library operations the orchestrator calls\<close>

text \<open>Decimal rendering of an array length inside a template literal.\<close>

fun string_of_nat :: "nat \<Rightarrow> string" where
  "string_of_nat n =
     (if n < 10 then [''0123456789'' ! n]
      else string_of_nat (n div 10) @ [''0123456789'' ! (n mod 10)])"

declare string_of_nat.simps [simp del]

definition newline :: string where
  "newline = [CHR 0x0A]"

text \<open>
  \<^verbatim>\<open>Array.prototype.sort(cmp)\<close> is stable and, for a consistent comparator, orders \<open>a\<close>
  before \<open>b\<close> when \<open>cmp a b < 0\<close>. The reference stable sort is insertion from the right:
  an element is placed before the first element of the sorted rest that it does not have
  to follow.
\<close>

fun js_insert :: "('a \<Rightarrow> 'a \<Rightarrow> real) \<Rightarrow> 'a \<Rightarrow> 'a list \<Rightarrow> 'a list" where
  "js_insert cmp x [] = [x]"
| "js_insert cmp x (y # ys) =
     (if cmp x y \<le> 0 then x # y # ys else y # js_insert cmp x ys)"

definition js_sort :: "('a \<Rightarrow> 'a \<Rightarrow> real) \<Rightarrow> 'a list \<Rightarrow> 'a list" where
  "js_sort cmp xs = foldr (js_insert cmp) xs []"

text \<open>
  \<^verbatim>\<open>Array.prototype.slice(0, end)\<close> for an integral \<open>end\<close>: a negative \<open>end\<close> counts from
  the end of the array.
\<close>

definition js_slice0 :: "'a list \<Rightarrow> int \<Rightarrow> 'a list" where
  "js_slice0 xs end =
     (let len = int (length xs);
          final = (if end < 0 then max (len + end) 0 else min end len)
      in take (nat final) xs)"

text \<open>
  A plain object \<^verbatim>\<open>{}\<close> used as a record: its own properties in creation order, and
  behind them the properties every object inherits from \<^verbatim>\<open>Object.prototype\<close>.
\<close>

type_synonym 'v js_object = "(string \<times> 'v) list"

definition object_prototype_keys :: "string list" where
  "object_prototype_keys =
     [''constructor'', ''hasOwnProperty'', ''isPrototypeOf'', ''propertyIsEnumerable'',
      ''toLocaleString'', ''toString'', ''valueOf'', ''__proto__'',
      ''__defineGetter__'', ''__defineSetter__'', ''__lookupGetter__'', ''__lookupSetter__'']"

datatype 'v js_lookup = Own 'v | Inherited | Undefined

definition js_get :: "'v js_object \<Rightarrow> string \<Rightarrow> 'v js_lookup" where
  "js_get obj k =
     (case map_of obj k of
        Some v \<Rightarrow> Own v
      | None \<Rightarrow> if k \<in> set object_prototype_keys then Inherited else Undefined)"

fun js_set :: "'v js_object \<Rightarrow> string \<Rightarrow> 'v \<Rightarrow> 'v js_object" where
  "js_set [] k v = [(k, v)]"
| "js_set ((k', v') # obj) k v =
     (if k' = k then (k, v) # obj else (k', v') # js_set obj k v)"

text \<open>
  \<^verbatim>\<open>Object.keys\<close> and \<^verbatim>\<open>Object.entries\<close> list the own keys that are array indices first
  (canonical decimal numerals below \<open>2^32 - 1\<close>), in ascending numeric order, and then the
  other keys in creation order.
\<close>

definition is_digit :: "char \<Rightarrow> bool" where
  "is_digit c = (c \<in> set ''0123456789'')"

definition digits_value :: "string \<Rightarrow> nat" where
  "digits_value s = foldl (\<lambda>n c. 10 * n + (of_char c - 48)) 0 s"

definition is_array_index :: "string \<Rightarrow> bool" where
  "is_array_index k =
     (k \<noteq> [] \<and> list_all is_digit k \<and> (k = ''0'' \<or> hd k \<noteq> CHR ''0'')
      \<and> digits_value k < 2 ^ 32 - 1)"

definition js_entries :: "'v js_object \<Rightarrow> (string \<times> 'v) list" where
  "js_entries obj =
     sort_key (\<lambda>(k, v). digits_value k) (filter (\<lambda>(k, v). is_array_index k) obj)
     @ filter (\<lambda>(k, v). \<not> is_array_index k) obj"

definition js_keys :: "'v js_object \<Rightarrow> string list" where
  "js_keys obj = map fst (js_entries obj)"

section \<open>QueryOrchestrator: routing\<close>

text \<open>
  \<^verbatim>\<open>this.dataSources.filter(ds => ds.isRelevantFor(query))\<close>: the predicate runs on every
  backend in registration order; the first one that throws ends the filter with its error.
\<close>

fun filter_relevant :: "IDataSource list \<Rightarrow> string \<Rightarrow> error + IDataSource list" where
  "filter_relevant [] query = Inr []"
| "filter_relevant (ds # rest) query =
     (case isRelevantFor ds query of
        Inl err \<Rightarrow> Inl err
      | Inr keep \<Rightarrow>
          (case filter_relevant rest query of
             Inl err \<Rightarrow> Inl err
           | Inr kept \<Rightarrow> Inr (if keep then ds # kept else kept)))"

definition sourcesToSearch :: "IDataSource list \<Rightarrow> IDataSource list \<Rightarrow> IDataSource list" where
  "sourcesToSearch relevantSources dataSources =
     (if length relevantSources > 0 then relevantSources else dataSources)"

definition search_set :: "IDataSource list \<Rightarrow> string \<Rightarrow> error + IDataSource list" where
  "search_set dataSources query =
     (case filter_relevant dataSources query of
        Inl err \<Rightarrow> Inl err
      | Inr relevantSources \<Rightarrow> Inr (sourcesToSearch relevantSources dataSources))"

section \<open>QueryOrchestrator: ranking and deduplication\<close>

definition compare_score :: "SearchResult \<Rightarrow> SearchResult \<Rightarrow> real" where
  "compare_score a b = relevanceScore b - relevanceScore a"

definition sorted_by_score :: "SearchResult list \<Rightarrow> SearchResult list" where
  "sorted_by_score results = js_sort compare_score results"

definition dedup_key :: "SearchResult \<Rightarrow> string" where
  "dedup_key result = title result @ ''-'' @ source result"

text \<open>The \<^verbatim>\<open>for\<close> loop of \<^verbatim>\<open>rankResults\<close>, with its two variables \<open>seen\<close> and \<open>unique\<close>.\<close>

fun dedup_loop :: "SearchResult list \<Rightarrow> string set \<Rightarrow> SearchResult list \<Rightarrow> SearchResult list" where
  "dedup_loop [] seen unique = unique"
| "dedup_loop (result # rest) seen unique =
     (if dedup_key result \<notin> seen
      then dedup_loop rest (insert (dedup_key result) seen) (unique @ [result])
      else dedup_loop rest seen unique)"

definition rankResults :: "SearchResult list \<Rightarrow> string \<Rightarrow> SearchResult list" where
  "rankResults results query = dedup_loop (sorted_by_score results) {} []"

section \<open>QueryOrchestrator: the search call\<close>

text \<open>
  \<open>onProgress\<close> says whether the optional callback was supplied; the calls made to it are
  returned, in order, as the first component of the result of \<open>QueryOrchestrator_search\<close>.
  The callback is an observer: one that itself throws is outside the model. What the
  source writes to the console is not modelled.
\<close>

definition emit :: "bool \<Rightarrow> SearchProgress \<Rightarrow> SearchProgress list" where
  "emit onProgress progress = (if onProgress then [progress] else [])"

text \<open>
  The body of the \<^verbatim>\<open>async\<close> function mapped over the search set runs up to its
  \<^verbatim>\<open>await\<close> at once (\<open>start_search\<close>); the rest runs when the promise of the backend
  settles (\<open>settle_search\<close>), and yields what the backend contributes to the pool.
\<close>

definition start_search :: "bool \<Rightarrow> IDataSource \<Rightarrow> SearchProgress list" where
  "start_search onProgress src =
     emit onProgress \<lparr>progress_source = name src, status = Searching, resultCount = None\<rparr>"

definition settle_search :: "bool \<Rightarrow> string \<Rightarrow> IDataSource \<Rightarrow> SearchProgress list \<times> SearchResult list" where
  "settle_search onProgress query src =
     (case search src query of
        Inr results \<Rightarrow>
          (emit onProgress
             \<lparr>progress_source = name src, status = Completed, resultCount = Some (length results)\<rparr>,
           results)
      | Inl err \<Rightarrow>
          (emit onProgress \<lparr>progress_source = name src, status = Error, resultCount = None\<rparr>,
           []))"

text \<open>
  The promises settle in an order the runtime chooses. The order is a parameter: the
  list names, by position in the search set, the backends that settle first; positions it
  repeats or that name no backend are skipped, and the backends it leaves out settle
  afterwards in registration order. Every list so denotes a complete order.
\<close>

definition completion_order :: "nat \<Rightarrow> nat list \<Rightarrow> nat list" where
  "completion_order n order =
     (let listed = rev (remdups (rev (filter (\<lambda>i. i < n) order)))
      in listed @ filter (\<lambda>i. i \<notin> set listed) [0..<n])"

definition QueryOrchestrator_search ::
  "IDataSource list \<Rightarrow> string \<Rightarrow> bool \<Rightarrow> nat list \<Rightarrow> SearchProgress list \<times> (error + SearchResult list)" where
  "QueryOrchestrator_search dataSources query onProgress order =
     (case search_set dataSources query of
        Inl err \<Rightarrow> ([], Inl err)
      | Inr srcs \<Rightarrow>
          (let started = concat (map (start_search onProgress) srcs);
               settled = concat (map (\<lambda>i. fst (settle_search onProgress query (srcs ! i)))
                                   (completion_order (length srcs) order));
               allResults = map (\<lambda>src. snd (settle_search onProgress query src)) srcs;
               flatResults = concat allResults
           in (started @ settled, Inr (rankResults flatResults query))))"

section \<open>QueryOrchestrator: formatting\<close>

definition group_step ::
  "SearchResult list js_object \<Rightarrow> SearchResult \<Rightarrow> error + SearchResult list js_object" where
  "group_step acc result =
     (case js_get acc (source result) of
        Undefined \<Rightarrow> Inr (js_set acc (source result) [result])
      | Own items \<Rightarrow> Inr (js_set acc (source result) (items @ [result]))
      | Inherited \<Rightarrow> Inl TypeError)"

fun group_reduce ::
  "SearchResult list js_object \<Rightarrow> SearchResult list \<Rightarrow> error + SearchResult list js_object" where
  "group_reduce acc [] = Inr acc"
| "group_reduce acc (result # rest) =
     (case group_step acc result of
        Inl err \<Rightarrow> Inl err
      | Inr acc' \<Rightarrow> group_reduce acc' rest)"

definition groupBySource :: "SearchResult list \<Rightarrow> error + SearchResult list js_object" where
  "groupBySource results = group_reduce [] results"

definition format_item :: "SearchResult \<Rightarrow> string" where
  "format_item item =
     ''- **'' @ title item @ ''**'' @ newline
     @ ''  '' @ content item @ newline
     @ (case url item of
          Some u \<Rightarrow> if u \<noteq> [] then ''  '' @ u @ newline else []
        | None \<Rightarrow> [])
     @ newline"

definition format_group :: "string \<times> SearchResult list \<Rightarrow> string" where
  "format_group entry =
     ''**'' @ fst entry @ ''** ('' @ string_of_nat (length (snd entry)) @ '' results):'' @ newline
     @ concat (map format_item (snd entry))"

definition format_header :: "nat \<Rightarrow> nat \<Rightarrow> string" where
  "format_header n m =
     ''Found '' @ string_of_nat n @ '' results across '' @ string_of_nat m
     @ '' sources:'' @ newline @ newline"

definition no_results_message :: string where
  "no_results_message = ''No results found across any data sources.''"

text \<open>
  The second argument is \<open>None\<close> when the caller omits \<^verbatim>\<open>maxResults\<close>. The result is \<open>Inl\<close>
  when the call throws.
\<close>

definition formatResults :: "SearchResult list \<Rightarrow> int option \<Rightarrow> error + string" where
  "formatResults results maxResults_arg =
     (let maxResults = (case maxResults_arg of None \<Rightarrow> 10 | Some m \<Rightarrow> m)
      in if length results = 0 then Inr no_results_message
         else
           (let topResults = js_slice0 results maxResults
            in case groupBySource topResults of
                 Inl err \<Rightarrow> Inl err
               | Inr sourceGroups \<Rightarrow>
                   Inr (format_header (length results) (length (js_keys sourceGroups))
                        @ concat (map format_group (js_entries sourceGroups)))))"

section \<open>The specification's reading, and sample values\<close>

text \<open>
  The routing as the specification words it: the search set is the subset of backends whose
  predicate returns true, in registration order, and the whole list when that subset is
  empty. A predicate that raises is counted as not relevant.
\<close>

definition spec_search_set :: "IDataSource list \<Rightarrow> string \<Rightarrow> IDataSource list" where
  "spec_search_set dataSources query =
     (let subset = filter (\<lambda>ds. isRelevantFor ds query = Inr True) dataSources
      in if subset = [] then dataSources else subset)"

text \<open>
  The grouping as the specification words it: one group per source, in the order in which
  the sources first appear, each group holding the results of its source in their order.
\<close>

definition first_appearance :: "'a list \<Rightarrow> 'a list" where
  "first_appearance xs = rev (remdups (rev xs))"

definition spec_groups :: "SearchResult list \<Rightarrow> (string \<times> SearchResult list) list" where
  "spec_groups rs =
     map (\<lambda>s. (s, filter (\<lambda>r. source r = s) rs)) (first_appearance (map source rs))"

text \<open>
  The formatter on a non-empty sequence as the specification words it: the first \<open>limit\<close>
  results are rendered, grouped as above, under a header that counts all results and the
  sources rendered.
\<close>

definition spec_formatResults :: "SearchResult list \<Rightarrow> int \<Rightarrow> string" where
  "spec_formatResults results limit =
     (let top = take (nat limit) results
      in format_header (length results) (length (first_appearance (map source top)))
         @ concat (map format_group (spec_groups top)))"

text \<open>Descending order of score, the order of the ranked sequence.\<close>

abbreviation descending :: "SearchResult list \<Rightarrow> bool" where
  "descending rs \<equiv> sorted_wrt (\<lambda>a b. relevanceScore b \<le> relevanceScore a) rs"

text \<open>Sample values for the concrete instances: a backend that answers every query alike, and a result.\<close>

definition backend :: "string \<Rightarrow> error + bool \<Rightarrow> error + SearchResult list \<Rightarrow> IDataSource" where
  "backend n relevant outcome =
     \<lparr>name = n, isRelevantFor = (\<lambda>query. relevant), search = (\<lambda>query. outcome)\<rparr>"

definition result :: "string \<Rightarrow> string \<Rightarrow> real \<Rightarrow> SearchResult" where
  "result src ttl score =
     \<lparr>source = src, title = ttl, content = ''text'', url = None, relevanceScore = score,
      metadata = None\<rparr>"

section \<open>Formatting an empty sequence\<close>

text \<open>
  C6. For every result limit, given or omitted, formatting the empty result sequence
  returns the fixed no-results message.
\<close>

theorem formatResults_empty:
  "formatResults [] maxResults_arg = Inr ''No results found across any data sources.''"
  by (simp add: formatResults_def no_results_message_def)

theorem formatResults_empty_witness:
  "formatResults [] (Some (- 3)) = Inr ''No results found across any data sources.''
   \<and> formatResults [] None = Inr ''No results found across any data sources.''"
  using formatResults_empty [of "Some (- 3)"] formatResults_empty [of None] by simp

section \<open>Routing\<close>

lemma filter_relevant_returns:
  "\<forall>ds \<in> set dataSources. \<not> isl (isRelevantFor ds query) \<Longrightarrow>
   filter_relevant dataSources query =
     Inr (filter (\<lambda>ds. isRelevantFor ds query = Inr True) dataSources)"
  by (induction dataSources) (auto split: sum.splits)

lemma filter_relevant_raises:
  "\<forall>ds \<in> set before. \<not> isl (isRelevantFor ds query) \<Longrightarrow>
   isRelevantFor bad query = Inl err \<Longrightarrow>
   filter_relevant (before @ bad # rest) query = Inl err"
  by (induction before) (auto split: sum.splits)

lemma search_set_returns:
  assumes "\<forall>ds \<in> set dataSources. \<not> isl (isRelevantFor ds query)"
  shows "search_set dataSources query = Inr (spec_search_set dataSources query)"
  using filter_relevant_returns [OF assms]
  by (simp add: search_set_def sourcesToSearch_def spec_search_set_def)

lemma started_events:
  "map progress_source (filter (\<lambda>p. status p = Searching)
      (concat (map (start_search True) srcs))) = map name srcs"
  by (induction srcs) (simp_all add: start_search_def emit_def)

lemma settled_not_searching:
  "filter (\<lambda>p. status p = Searching)
      (concat (map (\<lambda>i. fst (settle_search b query (srcs ! i))) js)) = []"
  by (induction js) (auto simp: settle_search_def emit_def split: sum.splits)

text \<open>
  C1. When every relevance predicate returns, the search set is exactly the sublist of the
  registered backends whose predicate returns true, in registration order, and the whole
  registered list when no predicate returns true. The backends searched are those of the
  search set, in that order: with a callback supplied, the \<open>Searching\<close> events name them.
\<close>

theorem routing:
  assumes "\<forall>ds \<in> set dataSources. \<not> isl (isRelevantFor ds query)"
  shows "search_set dataSources query =
           Inr (if \<exists>ds \<in> set dataSources. isRelevantFor ds query = Inr True
                then filter (\<lambda>ds. isRelevantFor ds query = Inr True) dataSources
                else dataSources)
         \<and> map progress_source (filter (\<lambda>p. status p = Searching)
              (fst (QueryOrchestrator_search dataSources query True order)))
           = map name (if \<exists>ds \<in> set dataSources. isRelevantFor ds query = Inr True
                then filter (\<lambda>ds. isRelevantFor ds query = Inr True) dataSources
                else dataSources)"
proof -
  let ?subset = "filter (\<lambda>ds. isRelevantFor ds query = Inr True) dataSources"
  have ex: "(\<exists>ds \<in> set dataSources. isRelevantFor ds query = Inr True) \<longleftrightarrow> ?subset \<noteq> []"
    by (simp add: filter_empty_conv)
  have set: "search_set dataSources query = Inr (if ?subset \<noteq> [] then ?subset else dataSources)"
    using search_set_returns [OF assms] by (simp add: spec_search_set_def)
  show ?thesis
    unfolding ex using set
    by (simp add: QueryOrchestrator_search_def Let_def started_events settled_not_searching)
qed

theorem routing_witness:
  "search_set [backend ''Slack'' (Inr False) (Inr []), backend ''Web'' (Inr True) (Inr [])] ''docs''
     = Inr [backend ''Web'' (Inr True) (Inr [])]
   \<and> map progress_source (filter (\<lambda>p. status p = Searching)
        (fst (QueryOrchestrator_search
           [backend ''Slack'' (Inr False) (Inr []), backend ''Web'' (Inr True) (Inr [])]
           ''docs'' True [])))
     = [''Web'']"
proof -
  let ?dss = "[backend ''Slack'' (Inr False) (Inr []), backend ''Web'' (Inr True) (Inr [])]"
  have h: "\<forall>ds \<in> set ?dss. \<not> isl (isRelevantFor ds ''docs'')"
    by (simp add: backend_def)
  have sel: "filter (\<lambda>ds. isRelevantFor ds ''docs'' = Inr True) ?dss
      = [backend ''Web'' (Inr True) (Inr [])]"
    by (simp add: backend_def)
  have ex: "\<exists>ds \<in> set ?dss. isRelevantFor ds ''docs'' = Inr True"
    by (simp add: backend_def)
  show ?thesis
    using routing [OF h, of "[]"] unfolding sel if_P [OF ex] by (simp add: backend_def)
qed

section \<open>A relevance predicate that raises\<close>

text \<open>
  C5, as stated, fails. With a first backend whose predicate raises and a second, relevant
  one, the specification's reading searches the second backend; the call ends with the
  error of the predicate, and no backend is searched.
\<close>

theorem relevance_failure_counterexample:
  "search_set
     [backend ''A'' (Inl (Thrown ''boom'')) (Inr [result ''A'' ''t'' 1]),
      backend ''B'' (Inr True) (Inr [result ''B'' ''t'' 1])] ''q''
   \<noteq> Inr (spec_search_set
     [backend ''A'' (Inl (Thrown ''boom'')) (Inr [result ''A'' ''t'' 1]),
      backend ''B'' (Inr True) (Inr [result ''B'' ''t'' 1])] ''q'')
   \<and> QueryOrchestrator_search
     [backend ''A'' (Inl (Thrown ''boom'')) (Inr [result ''A'' ''t'' 1]),
      backend ''B'' (Inr True) (Inr [result ''B'' ''t'' 1])] ''q'' True []
   = ([], Inl (Thrown ''boom''))
   \<and> map name (spec_search_set
     [backend ''A'' (Inl (Thrown ''boom'')) (Inr [result ''A'' ''t'' 1]),
      backend ''B'' (Inr True) (Inr [result ''B'' ''t'' 1])] ''q'') = [''B'']"
  by (simp add: QueryOrchestrator_search_def search_set_def backend_def spec_search_set_def)

text \<open>
  C5, amended. When the relevance predicate of a backend raises and those of the backends
  registered before it return, the call ends with that error: no backend is searched and
  no progress event is emitted.
\<close>

theorem relevance_failure_aborts:
  assumes "\<forall>ds \<in> set before. \<not> isl (isRelevantFor ds query)"
    and "isRelevantFor bad query = Inl err"
  shows "QueryOrchestrator_search (before @ bad # rest) query onProgress order = ([], Inl err)"
  using filter_relevant_raises [OF assms]
  by (simp add: QueryOrchestrator_search_def search_set_def)

theorem relevance_failure_aborts_witness:
  "QueryOrchestrator_search
     [backend ''B'' (Inr True) (Inr [result ''B'' ''t'' 1]),
      backend ''A'' (Inl (Thrown ''boom'')) (Inr []),
      backend ''C'' (Inr False) (Inr [])] ''q'' True [0]
   = ([], Inl (Thrown ''boom''))"
  using relevance_failure_aborts [of "[backend ''B'' (Inr True) (Inr [result ''B'' ''t'' 1])]" "''q''"
      "backend ''A'' (Inl (Thrown ''boom'')) (Inr [])" "Thrown ''boom''"
      "[backend ''C'' (Inr False) (Inr [])]" True "[0]"]
  by (simp add: backend_def)

section \<open>No backends\<close>

lemma completion_order_0: "completion_order 0 order = []"
  by (simp add: completion_order_def)

lemma rankResults_Nil: "rankResults [] query = []"
  by (simp add: rankResults_def sorted_by_score_def js_sort_def)

text \<open>
  C8. With an empty registration list, for every query, with or without a callback and
  whatever the completion order, the call returns the empty sequence and makes no call to
  the callback.
\<close>

theorem search_no_backends:
  "QueryOrchestrator_search [] query onProgress order = ([], Inr [])"
  by (simp add: QueryOrchestrator_search_def search_set_def sourcesToSearch_def
      completion_order_0 rankResults_Nil)

theorem search_no_backends_witness:
  "QueryOrchestrator_search [] ''how many users'' True [2, 0] = ([], Inr [])"
  using search_no_backends [of "''how many users''" True "[2, 0]"] by simp

section \<open>Ranking\<close>

lemma mset_js_insert: "mset (js_insert cmp x ys) = add_mset x (mset ys)"
  by (induction ys) simp_all

lemma mset_js_sort: "mset (js_sort cmp xs) = mset xs"
  by (induction xs) (simp_all add: js_sort_def mset_js_insert)

lemma set_js_insert: "set (js_insert cmp x ys) = insert x (set ys)"
  by (induction ys) auto

lemma descending_js_insert:
  "descending ys \<Longrightarrow> descending (js_insert compare_score x ys)"
  by (induction ys) (auto simp: set_js_insert compare_score_def)

lemma descending_sorted_by_score: "descending (sorted_by_score rs)"
  by (induction rs) (simp_all add: sorted_by_score_def js_sort_def descending_js_insert)

lemma filter_js_insert_other:
  "\<not> P x \<Longrightarrow> filter P (js_insert cmp x ys) = filter P ys"
  by (induction ys) simp_all

lemma filter_js_insert_same:
  "descending ys \<Longrightarrow>
   filter (\<lambda>r. relevanceScore r = relevanceScore x) (js_insert compare_score x ys)
     = x # filter (\<lambda>r. relevanceScore r = relevanceScore x) ys"
  by (induction ys) (auto simp: compare_score_def)

lemma filter_sorted_by_score:
  "filter (\<lambda>r. relevanceScore r = v) (sorted_by_score rs) = filter (\<lambda>r. relevanceScore r = v) rs"
proof (induction rs)
  case Nil
  show ?case by (simp add: sorted_by_score_def js_sort_def)
next
  case (Cons r rs)
  have unfold: "sorted_by_score (r # rs) = js_insert compare_score r (sorted_by_score rs)"
    by (simp add: sorted_by_score_def js_sort_def)
  show ?case
  proof (cases "relevanceScore r = v")
    case True
    then show ?thesis
      using filter_js_insert_same [OF descending_sorted_by_score, of r rs] Cons.IH
      by (simp add: unfold)
  next
    case False
    then show ?thesis
      using Cons.IH by (simp add: unfold filter_js_insert_other)
  qed
qed

section \<open>Deduplication\<close>

text \<open>
  What the loop does with its key: the sequence returned holds one result for every key of
  the pool, none twice, and the result kept for a key has the highest score among the
  results of the pool with that key. The key tells pairs of title and source apart as long
  as no source contains the separator.
\<close>

lemma dedup_loop_append:
  "dedup_loop xs seen unique = unique @ dedup_loop xs seen []"
proof (induction xs arbitrary: seen unique)
  case Nil
  show ?case by simp
next
  case (Cons x xs)
  show ?case
    using Cons.IH [of "insert (dedup_key x) seen" "unique @ [x]"]
      Cons.IH [of "insert (dedup_key x) seen" "[x]"] Cons.IH [of seen unique]
    by simp
qed

lemma dedup_loop_Cons:
  "dedup_loop (x # xs) seen [] =
     (if dedup_key x \<notin> seen then x # dedup_loop xs (insert (dedup_key x) seen) []
      else dedup_loop xs seen [])"
  using dedup_loop_append [of xs "insert (dedup_key x) seen" "[x]"] by simp

lemma dedup_loop_keys:
  "dedup_key ` set (dedup_loop xs seen []) = dedup_key ` set xs - seen"
  by (induction xs arbitrary: seen) (auto simp: dedup_loop_Cons simp del: dedup_loop.simps(2))

lemma dedup_loop_subset: "set (dedup_loop xs seen []) \<subseteq> set xs"
  by (induction xs arbitrary: seen) (auto simp: dedup_loop_Cons simp del: dedup_loop.simps(2))

lemma dedup_loop_distinct: "distinct (map dedup_key (dedup_loop xs seen []))"
proof (induction xs arbitrary: seen)
  case Nil
  show ?case by simp
next
  case (Cons x xs)
  have "dedup_key x \<notin> dedup_key ` set (dedup_loop xs (insert (dedup_key x) seen) [])"
    by (simp add: dedup_loop_keys)
  then show ?case
    using Cons.IH by (simp add: dedup_loop_Cons del: dedup_loop.simps(2))
qed

lemma dedup_loop_highest:
  "descending xs \<Longrightarrow> r \<in> set xs \<Longrightarrow> k \<in> set (dedup_loop xs seen []) \<Longrightarrow>
   dedup_key k = dedup_key r \<Longrightarrow> relevanceScore r \<le> relevanceScore k"
proof (induction xs arbitrary: seen)
  case Nil
  then show ?case by simp
next
  case (Cons x xs)
  show ?case
  proof (cases "k = x")
    case True
    then show ?thesis using Cons.prems(1,2) by auto
  next
    case False
    have "\<exists>seen'. k \<in> set (dedup_loop xs seen' []) \<and> dedup_key x \<in> seen'"
    proof (cases "dedup_key x \<in> seen")
      case True
      then show ?thesis using Cons.prems(3) by (auto simp: dedup_loop_Cons simp del: dedup_loop.simps(2))
    next
      case nin: False
      then have "k \<in> set (dedup_loop xs (insert (dedup_key x) seen) [])"
        using Cons.prems(3) False by (simp add: dedup_loop_Cons del: dedup_loop.simps(2))
      then show ?thesis by blast
    qed
    then obtain seen' where k: "k \<in> set (dedup_loop xs seen' [])" and x: "dedup_key x \<in> seen'"
      by blast
    have "dedup_key k \<notin> seen'"
      using k dedup_loop_keys [of xs seen'] by blast
    then have "r \<noteq> x"
      using x Cons.prems(4) by auto
    then have "r \<in> set xs"
      using Cons.prems(2) by simp
    then show ?thesis
      using Cons.IH [OF _ _ k Cons.prems(4)] Cons.prems(1) by simp
  qed
qed

lemma set_sorted_by_score: "set (sorted_by_score pool) = set pool"
  by (metis mset_js_sort set_mset_mset sorted_by_score_def)

lemma dedup_by_key:
  "distinct (map dedup_key (rankResults pool query))"
  "dedup_key ` set (rankResults pool query) = dedup_key ` set pool"
  "set (rankResults pool query) \<subseteq> set pool"
  "r \<in> set pool \<Longrightarrow> k \<in> set (rankResults pool query) \<Longrightarrow> dedup_key k = dedup_key r \<Longrightarrow>
     relevanceScore r \<le> relevanceScore k"
proof -
  show "distinct (map dedup_key (rankResults pool query))"
    by (simp add: rankResults_def dedup_loop_distinct)
  show "dedup_key ` set (rankResults pool query) = dedup_key ` set pool"
    by (simp add: rankResults_def dedup_loop_keys set_sorted_by_score)
  show "set (rankResults pool query) \<subseteq> set pool"
    using dedup_loop_subset [of "sorted_by_score pool" "{}"]
    by (simp add: rankResults_def set_sorted_by_score)
  show "r \<in> set pool \<Longrightarrow> k \<in> set (rankResults pool query) \<Longrightarrow> dedup_key k = dedup_key r \<Longrightarrow>
     relevanceScore r \<le> relevanceScore k"
    using dedup_loop_highest [OF descending_sorted_by_score, of r pool k "{}"]
    by (simp add: rankResults_def set_sorted_by_score)
qed

lemma append_separator_inject:
  "c \<notin> set xs \<Longrightarrow> c \<notin> set ys \<Longrightarrow> xs @ c # u = ys @ c # v \<Longrightarrow> xs = ys \<and> u = v"
proof (induction xs arbitrary: ys)
  case Nil
  then show ?case by (cases ys) auto
next
  case (Cons x xs)
  then show ?case by (cases ys) auto
qed

lemma dedup_key_inject:
  assumes "CHR ''-'' \<notin> set (source a)" and "CHR ''-'' \<notin> set (source b)"
  shows "dedup_key a = dedup_key b \<longleftrightarrow> title a = title b \<and> source a = source b"
proof
  assume eq: "dedup_key a = dedup_key b"
  have "rev (source a) @ CHR ''-'' # rev (title a) = rev (dedup_key a)"
    by (simp add: dedup_key_def)
  also have "\<dots> = rev (dedup_key b)"
    by (simp only: eq)
  also have "\<dots> = rev (source b) @ CHR ''-'' # rev (title b)"
    by (simp add: dedup_key_def)
  finally have "rev (source a) @ CHR ''-'' # rev (title a)
      = rev (source b) @ CHR ''-'' # rev (title b)" .
  then have "rev (source a) = rev (source b) \<and> rev (title a) = rev (title b)"
    using assms by (intro append_separator_inject [of "CHR ''-''"]) simp_all
  then show "title a = title b \<and> source a = source b" by simp
next
  assume "title a = title b \<and> source a = source b"
  then show "dedup_key a = dedup_key b" by (simp add: dedup_key_def)
qed

lemma dedup_keeps_highest_example:
  "rankResults [result ''Docs'' ''Guide'' 0.8, result ''Docs'' ''Guide'' 0.95] query
     = [result ''Docs'' ''Guide'' 0.95]"
  by (simp add: rankResults_def sorted_by_score_def js_sort_def compare_score_def result_def
      dedup_key_def)

text \<open>
  C2. The key of the loop is the text \<open>title-source\<close>, and two different pairs can give the
  same text. Here the pool holds two results whose pairs differ, and only the first is
  returned.
\<close>

theorem dedup_key_collision:
  "rankResults [result ''Docs-Internal'' ''Guide'' 0.9, result ''Internal'' ''Guide-Docs'' 0.8] query
     = [result ''Docs-Internal'' ''Guide'' 0.9]
   \<and> (title (result ''Docs-Internal'' ''Guide'' 0.9), source (result ''Docs-Internal'' ''Guide'' 0.9))
     \<noteq> (title (result ''Internal'' ''Guide-Docs'' 0.8), source (result ''Internal'' ''Guide-Docs'' 0.8))"
  by (simp add: rankResults_def sorted_by_score_def js_sort_def compare_score_def result_def
      dedup_key_def)

section \<open>The order of the ranked sequence\<close>

lemma dedup_loop_subseq: "subseq (dedup_loop xs seen []) xs"
  by (induction xs arbitrary: seen) (auto simp: dedup_loop_Cons simp del: dedup_loop.simps(2))

lemma descending_dedup_loop: "descending xs \<Longrightarrow> descending (dedup_loop xs seen [])"
proof (induction xs arbitrary: seen)
  case Nil
  show ?case by simp
next
  case (Cons x xs)
  have "set (dedup_loop xs (insert (dedup_key x) seen) []) \<subseteq> set xs"
    by (rule dedup_loop_subset)
  then show ?case
    using Cons by (auto simp: dedup_loop_Cons simp del: dedup_loop.simps(2))
qed

lemma dedup_loop_distinct_keys:
  "distinct (map dedup_key xs) \<Longrightarrow> dedup_key ` set xs \<inter> seen = {} \<Longrightarrow>
   dedup_loop xs seen [] = xs"
  by (induction xs arbitrary: seen) (auto simp: dedup_loop_Cons simp del: dedup_loop.simps(2))

lemma distinct_keys_sorted_by_score:
  "distinct (map dedup_key pool) \<Longrightarrow> distinct (map dedup_key (sorted_by_score pool))"
proof -
  have "mset (map dedup_key (sorted_by_score pool)) = mset (map dedup_key pool)"
    by (simp add: sorted_by_score_def mset_js_sort)
  then show "distinct (map dedup_key pool) \<Longrightarrow> distinct (map dedup_key (sorted_by_score pool))"
    by (metis mset_eq_imp_distinct_iff)
qed

lemma rankResults_subseq: "subseq (rankResults pool query) (sorted_by_score pool)"
  by (simp add: rankResults_def dedup_loop_subseq)

lemma rankResults_descending: "descending (rankResults pool query)"
  by (simp add: rankResults_def descending_dedup_loop descending_sorted_by_score)

lemma rankResults_ties:
  "subseq (filter (\<lambda>r. relevanceScore r = v) (rankResults pool query))
          (filter (\<lambda>r. relevanceScore r = v) pool)"
  using subseq_filter [OF rankResults_subseq, of "\<lambda>r. relevanceScore r = v" pool query]
  by (simp add: filter_sorted_by_score)

lemma rankResults_distinct_keys:
  "distinct (map dedup_key pool) \<Longrightarrow> rankResults pool query = sorted_by_score pool"
  by (simp add: rankResults_def dedup_loop_distinct_keys distinct_keys_sorted_by_score)

lemma search_returns_ranking:
  "search_set dataSources query = Inr srcs \<Longrightarrow>
   snd (QueryOrchestrator_search dataSources query onProgress order)
     = Inr (rankResults (concat (map (\<lambda>src. snd (settle_search onProgress query src)) srcs)) query)"
  by (simp add: QueryOrchestrator_search_def Let_def)

text \<open>
  C3. For every pool, \<open>rankResults\<close> returns the pool sorted by \<open>relevanceScore\<close>, descending
  and stably, with duplicates dropped. The sorted pool holds the results of the pool, each as
  often as the pool does, in descending order of score, the results of any one score in the
  order they had in the pool. The sequence returned is a subsequence of the sorted pool; it
  is in descending order of score; its results of any one score stand in the order they had
  in the pool; and it is the whole sorted pool when no two results of the pool share a key.
  The same holds of what the search call returns, for the pool made of the contributions of
  the backends of the search set in registration order.
\<close>

theorem ranking_stable:
  "mset (sorted_by_score pool) = mset pool
   \<and> sorted_wrt (\<lambda>a b. relevanceScore b \<le> relevanceScore a) (sorted_by_score pool)
   \<and> (\<forall>v. filter (\<lambda>r. relevanceScore r = v) (sorted_by_score pool)
          = filter (\<lambda>r. relevanceScore r = v) pool)
   \<and> subseq (rankResults pool query) (sorted_by_score pool)
   \<and> sorted_wrt (\<lambda>a b. relevanceScore b \<le> relevanceScore a) (rankResults pool query)
   \<and> (\<forall>v. subseq (filter (\<lambda>r. relevanceScore r = v) (rankResults pool query))
                  (filter (\<lambda>r. relevanceScore r = v) pool))
   \<and> (distinct (map dedup_key pool) \<longrightarrow> rankResults pool query = sorted_by_score pool)
   \<and> (search_set dataSources q = Inr srcs \<longrightarrow>
        (\<exists>ranked. snd (QueryOrchestrator_search dataSources q onProgress order) = Inr ranked
           \<and> sorted_wrt (\<lambda>a b. relevanceScore b \<le> relevanceScore a) ranked
           \<and> subseq ranked (sorted_by_score
                (concat (map (\<lambda>src. snd (settle_search onProgress q src)) srcs)))))"
proof -
  have a: "mset (sorted_by_score pool) = mset pool"
    by (simp add: sorted_by_score_def mset_js_sort)
  have b: "\<forall>v. filter (\<lambda>r. relevanceScore r = v) (sorted_by_score pool)
          = filter (\<lambda>r. relevanceScore r = v) pool"
    by (simp add: filter_sorted_by_score)
  have c: "\<forall>v. subseq (filter (\<lambda>r. relevanceScore r = v) (rankResults pool query))
                  (filter (\<lambda>r. relevanceScore r = v) pool)"
    by (simp add: rankResults_ties)
  have d: "search_set dataSources q = Inr srcs \<longrightarrow>
        (\<exists>ranked. snd (QueryOrchestrator_search dataSources q onProgress order) = Inr ranked
           \<and> descending ranked
           \<and> subseq ranked (sorted_by_score
                (concat (map (\<lambda>src. snd (settle_search onProgress q src)) srcs))))"
    by (simp add: search_returns_ranking rankResults_descending rankResults_subseq)
  from a b c d show ?thesis
    using descending_sorted_by_score [of pool] rankResults_subseq [of pool query]
      rankResults_descending [of pool query] rankResults_distinct_keys [of pool query]
    by blast
qed

theorem ranking_stable_witness:
  "rankResults [result ''S'' ''r1'' 0.9, result ''S'' ''r2'' 0.5,
                result ''S'' ''r3'' 0.9, result ''S'' ''r4'' 0.2] ''q''
   = [result ''S'' ''r1'' 0.9, result ''S'' ''r3'' 0.9,
      result ''S'' ''r2'' 0.5, result ''S'' ''r4'' 0.2]
   \<and> sorted_by_score [result ''S'' ''r1'' 0.9, result ''S'' ''r2'' 0.5,
                    result ''S'' ''r3'' 0.9, result ''S'' ''r4'' 0.2]
   = [result ''S'' ''r1'' 0.9, result ''S'' ''r3'' 0.9,
      result ''S'' ''r2'' 0.5, result ''S'' ''r4'' 0.2]
   \<and> snd (QueryOrchestrator_search
        [backend ''A'' (Inr True) (Inr [result ''A'' ''r1'' 0.9, result ''A'' ''r2'' 0.5]),
         backend ''B'' (Inr True) (Inr [result ''B'' ''r3'' 0.9, result ''B'' ''r4'' 0.2])]
        ''q'' True [1, 0])
   = Inr [result ''A'' ''r1'' 0.9, result ''B'' ''r3'' 0.9,
          result ''A'' ''r2'' 0.5, result ''B'' ''r4'' 0.2]"
proof -
  let ?pool = "[result ''S'' ''r1'' 0.9, result ''S'' ''r2'' 0.5,
                result ''S'' ''r3'' 0.9, result ''S'' ''r4'' 0.2]"
  let ?A = "backend ''A'' (Inr True) (Inr [result ''A'' ''r1'' 0.9, result ''A'' ''r2'' 0.5])"
  let ?B = "backend ''B'' (Inr True) (Inr [result ''B'' ''r3'' 0.9, result ''B'' ''r4'' 0.2])"
  have keys: "distinct (map dedup_key ?pool)"
    by (simp add: dedup_key_def result_def)
  have sorted: "sorted_by_score ?pool
      = [result ''S'' ''r1'' 0.9, result ''S'' ''r3'' 0.9,
         result ''S'' ''r2'' 0.5, result ''S'' ''r4'' 0.2]"
    by (simp add: sorted_by_score_def js_sort_def compare_score_def result_def)
  have set: "search_set [?A, ?B] ''q'' = Inr [?A, ?B]"
    by (simp add: search_set_def sourcesToSearch_def backend_def)
  have run: "snd (QueryOrchestrator_search [?A, ?B] ''q'' True [1, 0])
      = Inr [result ''A'' ''r1'' 0.9, result ''B'' ''r3'' 0.9,
             result ''A'' ''r2'' 0.5, result ''B'' ''r4'' 0.2]"
    by (simp add: QueryOrchestrator_search_def search_set_def sourcesToSearch_def backend_def
        settle_search_def rankResults_def sorted_by_score_def js_sort_def compare_score_def
        result_def dedup_key_def)
  show ?thesis
    using ranking_stable [of ?pool "''q''" "[?A, ?B]" "''q''" "[?A, ?B]" True "[1, 0]"]
      keys sorted set run
    by simp
qed

section \<open>Failure isolation\<close>


lemma completion_order_permutation:
  assumes "mset order = mset [0..<n]"
  shows "completion_order n order = order"
proof -
  have d: "distinct order"
    using assms by (metis distinct_upt mset_eq_imp_distinct_iff)
  have s: "set order = {0..<n}"
    using assms by (metis mset_eq_setD set_upt)
  have "filter (\<lambda>i. i < n) order = order"
    using s by (auto simp: filter_id_conv)
  moreover have "rev (remdups (rev order)) = order"
    using d by (simp add: distinct_remdups_id)
  moreover have "filter (\<lambda>i. i \<notin> set order) [0..<n] = []"
    using s by (auto simp: filter_empty_conv)
  ultimately show ?thesis
    by (simp add: completion_order_def)
qed










text \<open>The whole log of that call: both \<open>Searching\<close> events come first, then the terminal events in completion order.\<close>

lemma search_log_example:
  "QueryOrchestrator_search
          [backend ''A'' (Inr True) (Inl (Thrown ''timeout'')),
           backend ''B'' (Inr True) (Inr [result ''B'' ''Guide'' 0.8])] ''q'' True [1, 0]
   = ([\<lparr>progress_source = ''A'', status = Searching, resultCount = None\<rparr>,
       \<lparr>progress_source = ''B'', status = Searching, resultCount = None\<rparr>,
       \<lparr>progress_source = ''B'', status = Completed, resultCount = Some 1\<rparr>,
       \<lparr>progress_source = ''A'', status = Error, resultCount = None\<rparr>],
      Inr [result ''B'' ''Guide'' 0.8])"
  by (simp add: QueryOrchestrator_search_def search_set_def sourcesToSearch_def backend_def
      start_search_def settle_search_def emit_def completion_order_def
      rankResults_def sorted_by_score_def js_sort_def)

section \<open>Formatting a non-empty sequence\<close>

lemma first_appearance_snoc:
  "first_appearance (xs @ [x]) = (if x \<in> set xs then first_appearance xs else first_appearance xs @ [x])"
  by (simp add: first_appearance_def)

lemma set_first_appearance [simp]: "set (first_appearance xs) = set xs"
  by (simp add: first_appearance_def)

lemma distinct_first_appearance [simp]: "distinct (first_appearance xs)"
  by (simp add: first_appearance_def)

lemma length_first_appearance: "length (first_appearance xs) = card (set xs)"
  by (metis distinct_card distinct_first_appearance set_first_appearance)

lemma group_reduce_snoc:
  "group_reduce acc (rs @ [r]) =
     (case group_reduce acc rs of Inl err \<Rightarrow> Inl err | Inr acc' \<Rightarrow> group_step acc' r)"
  by (induction rs arbitrary: acc) (auto split: sum.splits)

lemma map_of_tabulate:
  "map_of (map (\<lambda>s. (s, f s)) ks) k = (if k \<in> set ks then Some (f k) else None)"
  by (induction ks) auto

lemma js_set_tabulate_old:
  "distinct ks \<Longrightarrow> k \<in> set ks \<Longrightarrow>
   js_set (map (\<lambda>s. (s, f s)) ks) k v = map (\<lambda>s. (s, if s = k then v else f s)) ks"
  by (induction ks) auto

lemma js_set_tabulate_new:
  "k \<notin> set ks \<Longrightarrow> js_set (map (\<lambda>s. (s, f s)) ks) k v = map (\<lambda>s. (s, f s)) ks @ [(k, v)]"
  by (induction ks) auto

lemma group_step_spec_groups:
  assumes "source r \<notin> set object_prototype_keys"
  shows "group_step (spec_groups rs) r = Inr (spec_groups (rs @ [r]))"
proof (cases "source r \<in> source ` set rs")
  case True
  then have "js_get (spec_groups rs) (source r) = Own (filter (\<lambda>x. source x = source r) rs)"
    by (simp add: js_get_def spec_groups_def map_of_tabulate)
  moreover have "js_set (spec_groups rs) (source r) (filter (\<lambda>x. source x = source r) rs @ [r])
      = spec_groups (rs @ [r])"
    using True by (auto simp: spec_groups_def js_set_tabulate_old first_appearance_snoc)
  ultimately show ?thesis
    by (simp add: group_step_def)
next
  case False
  then have "js_get (spec_groups rs) (source r) = Undefined"
    using assms by (simp add: js_get_def spec_groups_def map_of_tabulate)
  moreover have "filter (\<lambda>x. source x = source r) rs = []"
    using False by (force simp: filter_empty_conv image_iff)
  then have "js_set (spec_groups rs) (source r) [r] = spec_groups (rs @ [r])"
    using False by (auto simp: spec_groups_def js_set_tabulate_new first_appearance_snoc)
  ultimately show ?thesis
    by (simp add: group_step_def)
qed

lemma groupBySource_spec_groups:
  "\<forall>r \<in> set rs. source r \<notin> set object_prototype_keys \<Longrightarrow>
   groupBySource rs = Inr (spec_groups rs)"
proof (induction rs rule: rev_induct)
  case Nil
  show ?case by (simp add: groupBySource_def spec_groups_def first_appearance_def)
next
  case (snoc r rs)
  then show ?case
    by (simp add: groupBySource_def group_reduce_snoc group_step_spec_groups)
qed

lemma js_entries_plain:
  "\<forall>k \<in> fst ` set obj. \<not> is_array_index k \<Longrightarrow> js_entries obj = obj"
proof -
  assume a: "\<forall>k \<in> fst ` set obj. \<not> is_array_index k"
  then have "filter (\<lambda>(k, v). is_array_index k) obj = []"
    by (auto simp: filter_empty_conv)
  moreover have "filter (\<lambda>(k, v). \<not> is_array_index k) obj = obj"
    using a by (auto simp: filter_id_conv)
  ultimately show ?thesis
    by (simp add: js_entries_def)
qed

lemma keys_spec_groups: "map fst (spec_groups rs) = first_appearance (map source rs)"
  by (simp add: spec_groups_def comp_def)

lemmas format_eval = formatResults_def js_slice0_def groupBySource_def group_step_def js_get_def
  object_prototype_keys_def js_keys_def js_entries_def is_array_index_def is_digit_def
  digits_value_def format_header_def format_group_def format_item_def result_def
  string_of_nat.simps

text \<open>
  C7, as stated, fails for a negative limit: \<^verbatim>\<open>slice(0, -1)\<close> drops the last result only,
  so one result of two is rendered, where truncating to the limit leaves none.
\<close>

theorem formatResults_negative_limit:
  "formatResults [result ''Docs'' ''Guide'' 0.9, result ''Docs'' ''FAQ'' 0.5] (Some (- 1))
     \<noteq> Inr (spec_formatResults [result ''Docs'' ''Guide'' 0.9, result ''Docs'' ''FAQ'' 0.5] (- 1))
   \<and> formatResults [result ''Docs'' ''Guide'' 0.9, result ''Docs'' ''FAQ'' 0.5] (Some (- 1))
     = Inr (''Found 2 results across 1 sources:'' @ newline @ newline
            @ ''**Docs** (1 results):'' @ newline
            @ ''- **Guide**'' @ newline @ ''  text'' @ newline @ newline)
   \<and> spec_formatResults [result ''Docs'' ''Guide'' 0.9, result ''Docs'' ''FAQ'' 0.5] (- 1)
     = ''Found 2 results across 0 sources:'' @ newline @ newline"
  by (simp add: format_eval spec_formatResults_def spec_groups_def first_appearance_def)

text \<open>
  C7, amended. For a non-empty sequence, and when no rendered source is an array index or
  the name of a property of \<^verbatim>\<open>Object.prototype\<close>: the results rendered are the first \<open>limit\<close>
  ones for a limit \<open>limit \<ge> 0\<close>, and all but the last \<open>- limit\<close> for a negative one; the
  header gives the number of all results and the number of distinct sources among the
  rendered ones; the groups follow in order of first appearance of their source, each with
  its results in order, each result with its title, its content and its URL when that is
  a non-empty string.
\<close>

theorem formatResults_groups:
  assumes "results \<noteq> []"
    and "\<forall>r \<in> set (js_slice0 results limit).
           source r \<notin> set object_prototype_keys \<and> \<not> is_array_index (source r)"
  shows "formatResults results (Some limit) =
           Inr (format_header (length results) (card (source ` set (js_slice0 results limit)))
                @ concat (map format_group (spec_groups (js_slice0 results limit))))
         \<and> (0 \<le> limit \<longrightarrow> js_slice0 results limit = take (nat limit) results)
         \<and> (limit < 0 \<longrightarrow> js_slice0 results limit = take (length results - nat (- limit)) results)"
proof -
  let ?top = "js_slice0 results limit"
  have g: "groupBySource ?top = Inr (spec_groups ?top)"
    using assms(2) by (simp add: groupBySource_spec_groups)
  have "\<forall>k \<in> fst ` set (spec_groups ?top). \<not> is_array_index k"
    using assms(2) by (auto simp: spec_groups_def)
  then have e: "js_entries (spec_groups ?top) = spec_groups ?top"
    by (rule js_entries_plain)
  have n: "length (spec_groups ?top) = card (source ` set ?top)"
    by (simp add: spec_groups_def length_first_appearance)
  have "formatResults results (Some limit) =
           Inr (format_header (length results) (card (source ` set ?top))
                @ concat (map format_group (spec_groups ?top)))"
    using assms(1) by (simp add: formatResults_def g e js_keys_def n)
  moreover have "0 \<le> limit \<longrightarrow> ?top = take (nat limit) results"
    by (auto simp: js_slice0_def Let_def min_def)
  moreover have "limit < 0 \<longrightarrow> ?top = take (length results - nat (- limit)) results"
  proof
    assume "limit < 0"
    then have "nat (max (int (length results) + limit) 0) = length results - nat (- limit)"
      by arith
    with \<open>limit < 0\<close> show "?top = take (length results - nat (- limit)) results"
      by (simp add: js_slice0_def Let_def)
  qed
  ultimately show ?thesis by blast
qed

theorem formatResults_groups_witness:
  "formatResults
     [\<lparr>source = ''Slack'', title = ''Message in #general'', content = ''hello'',
        url = Some ''https://s/1'', relevanceScore = 1, metadata = None\<rparr>,
      result ''Docs'' ''Guide'' 0.9,
      result ''Slack'' ''Message in #dev'' 0.8,
      result ''Web'' ''Page'' 0.7] (Some 3)
   = Inr (''Found 4 results across 2 sources:'' @ newline @ newline
          @ ''**Slack** (2 results):'' @ newline
          @ ''- **Message in #general**'' @ newline @ ''  hello'' @ newline
          @ ''  https://s/1'' @ newline @ newline
          @ ''- **Message in #dev**'' @ newline @ ''  text'' @ newline @ newline
          @ ''**Docs** (1 results):'' @ newline
          @ ''- **Guide**'' @ newline @ ''  text'' @ newline @ newline)"
proof -
  let ?rs = "[\<lparr>source = ''Slack'', title = ''Message in #general'', content = ''hello'',
        url = Some ''https://s/1'', relevanceScore = 1, metadata = None\<rparr>,
      result ''Docs'' ''Guide'' 0.9,
      result ''Slack'' ''Message in #dev'' 0.8,
      result ''Web'' ''Page'' 0.7]"
  have top: "js_slice0 ?rs 3 = take 3 ?rs"
    by (simp add: js_slice0_def)
  have h1: "?rs \<noteq> []" by simp
  have h2: "\<forall>r \<in> set (js_slice0 ?rs 3).
           source r \<notin> set object_prototype_keys \<and> \<not> is_array_index (source r)"
    unfolding top
    by (simp add: object_prototype_keys_def is_array_index_def is_digit_def result_def)
  have c: "card (source ` set (take 3 ?rs)) = 2"
    by (simp add: result_def card_insert_if)
  show ?thesis
    using formatResults_groups [OF h1 h2] unfolding top c
    by (simp add: spec_groups_def first_appearance_def format_header_def format_group_def
        format_item_def result_def string_of_nat.simps)
qed

text \<open>
  The sources the amended statement leaves out: an array index is listed before the other
  keys, and a name inherited from \<^verbatim>\<open>Object.prototype\<close> makes \<^verbatim>\<open>push\<close> fail.
\<close>

lemma formatResults_numeric_source:
  "formatResults [result ''Web'' ''Guide'' 0.9, result ''7'' ''FAQ'' 0.5] (Some 10)
     = Inr (''Found 2 results across 2 sources:'' @ newline @ newline
            @ ''**7** (1 results):'' @ newline
            @ ''- **FAQ**'' @ newline @ ''  text'' @ newline @ newline
            @ ''**Web** (1 results):'' @ newline
            @ ''- **Guide**'' @ newline @ ''  text'' @ newline @ newline)"
  by (simp add: format_eval)

lemma formatResults_prototype_source:
  "formatResults [result ''constructor'' ''Guide'' 0.9] (Some 10) = Inl TypeError"
  by (simp add: format_eval)

section \<open>The no-results message\<close>

lemma header_not_message: "format_header n m @ rest \<noteq> no_results_message"
  by (simp add: format_header_def no_results_message_def)

text \<open>
  C10. \<open>formatResults\<close> returns the no-results message exactly for the empty sequence; for
  a non-empty sequence and limit 0 it returns the header alone, with the number of results
  and 0 sources; an omitted limit is the limit 10.
\<close>

theorem formatResults_message_iff:
  "(formatResults results maxResults_arg = Inr no_results_message \<longleftrightarrow> results = [])
   \<and> (results \<noteq> [] \<longrightarrow> formatResults results (Some 0) =
         Inr (''Found '' @ string_of_nat (length results) @ '' results across 0 sources:''
              @ newline @ newline))
   \<and> formatResults results None = formatResults results (Some 10)"
proof -
  have "formatResults results maxResults_arg = Inr no_results_message \<longleftrightarrow> results = []"
    by (auto simp: formatResults_def Let_def header_not_message split: sum.splits)
  moreover have "results \<noteq> [] \<longrightarrow> formatResults results (Some 0) =
         Inr (''Found '' @ string_of_nat (length results) @ '' results across 0 sources:''
              @ newline @ newline)"
    by (simp add: formatResults_def js_slice0_def groupBySource_def js_keys_def js_entries_def
        format_header_def string_of_nat.simps [of 0])
  moreover have "formatResults results None = formatResults results (Some 10)"
    by (simp add: formatResults_def)
  ultimately show ?thesis by blast
qed

theorem formatResults_message_iff_witness:
  "formatResults [result ''Docs'' ''Guide'' 0.9] (Some 0)
     = Inr (''Found 1 results across 0 sources:'' @ newline @ newline)
   \<and> formatResults [result ''Docs'' ''Guide'' 0.9] (Some 0) \<noteq> Inr no_results_message
   \<and> formatResults [] (Some 0) = Inr no_results_message"
proof -
  have h: "[result ''Docs'' ''Guide'' 0.9] \<noteq> []" by simp
  show ?thesis
    using formatResults_message_iff [of "[result ''Docs'' ''Guide'' 0.9]" "Some 0"]
      formatResults_message_iff [of "[]" "Some 0"] h
    by (simp add: string_of_nat.simps no_results_message_def)
qed

end
